theory Spec2Isabelle
  imports Complex_Main "HOL-Library.Char_ord" "HOL-Library.Sublist"
begin

section \<open>Python values, errors and library parameters\<close>

text \<open>
  The exceptions that the modelled functions of \<^verbatim>\<open>theanets/recurrent.py\<close> can raise.
  \<open>ReError\<close> is the \<^verbatim>\<open>re.error\<close> of the regular-expression library.
\<close>

datatype py_error = AssertionError | IndexError | ValueError | ReError | OtherError

text \<open>
  A Python string is a \<open>string\<close>; a one-character string and a character are told
  apart where the source does (\<^verbatim>\<open>unknown\<close> is a string, the elements of a text are
  characters).  Characters are ordered by their code, which is what \<^verbatim>\<open>sorted\<close> uses.
\<close>

definition backslash :: char where
  "backslash = CHR 0x5C"

section \<open>The class \<^verbatim>\<open>Text\<close>\<close>

text \<open>The attribute \<^verbatim>\<open>self.text\<close> is the field \<open>text_attr\<close>.\<close>

record Text =
  text_attr :: string
  alpha :: string
  rev_index :: string
  fwd_index :: "char \<rightharpoonup> nat"

text \<open>
  \<^verbatim>\<open>collections.Counter(text).items()\<close> filtered by
  \<^verbatim>\<open>char != unknown and count >= min_count\<close>, then \<^verbatim>\<open>''.join(sorted(set(...)))\<close>.
  The comparison \<^verbatim>\<open>char != unknown\<close> compares the one-character string \<open>[c]\<close> with the
  string \<open>unknown\<close>.
\<close>

definition infer_alpha :: "string \<Rightarrow> int \<Rightarrow> string \<Rightarrow> string" where
  "infer_alpha txt min_count unknown =
     sort (remdups (filter (\<lambda>c. [c] \<noteq> unknown \<and> int (count_list txt c) \<ge> min_count) txt))"

text \<open>
  \<^verbatim>\<open>re.sub(r'[^{}]'.format(re.escape(alpha)), unknown, text)\<close>.
  The pattern is the negated character class of the characters of \<open>alpha\<close>;
  \<^verbatim>\<open>re.escape\<close> makes every character of \<open>alpha\<close> a literal member of the class.
  For the empty \<open>alpha\<close> the pattern is \<^verbatim>\<open>[^]\<close>, which the library rejects
  (unterminated character set) when it compiles the pattern, before anything else.
  A replacement without a backslash is inserted literally for every match.  A replacement
  with a backslash is a template that the library parses: that parser is not part of
  this program and is the parameter \<open>tmpl\<close>, giving \<open>None\<close> where the library
  raises \<^verbatim>\<open>re.error\<close>, or else the string inserted for a matched character.
\<close>

definition re_sub_not_in ::
  "(string \<Rightarrow> (char \<Rightarrow> string) option) \<Rightarrow> string \<Rightarrow> string \<Rightarrow> string \<Rightarrow> py_error + string" where
  "re_sub_not_in tmpl alph repl txt =
     (if alph = [] then Inl ReError
      else case (if backslash \<in> set repl then tmpl repl else Some (\<lambda>_. repl)) of
             None \<Rightarrow> Inl ReError
           | Some ins \<Rightarrow> Inr (concat (map (\<lambda>c. if c \<in> set alph then [c] else ins c) txt)))"

text \<open>
  \<^verbatim>\<open>dict(zip(keys, range(n)))\<close>: the pairs are inserted from left to right, a later
  pair overwriting an earlier one with the same key.
\<close>

definition py_dict :: "('k \<times> 'v) list \<Rightarrow> ('k \<rightharpoonup> 'v)" where
  "py_dict kvs = fold (\<lambda>(k, v) m. m(k \<mapsto> v)) kvs Map.empty"

text \<open>
  \<^verbatim>\<open>Text.__init__(self, text, alpha=None, min_count=2, unknown='\0')\<close>.
  \<^verbatim>\<open>unknown not in self.alpha\<close> is Python's substring test.
\<close>

definition Text_init ::
  "(string \<Rightarrow> (char \<Rightarrow> string) option) \<Rightarrow> string \<Rightarrow> string option \<Rightarrow> int \<Rightarrow> string
     \<Rightarrow> py_error + Text" where
  "Text_init tmpl txt alpha_arg min_count unknown =
     (let a = (case alpha_arg of None \<Rightarrow> infer_alpha txt min_count unknown | Some a' \<Rightarrow> a')
      in case re_sub_not_in tmpl a unknown txt of
           Inl e \<Rightarrow> Inl e
         | Inr cleaned \<Rightarrow>
             if sublist unknown a then Inl AssertionError
             else Inr \<lparr> text_attr = cleaned, alpha = a, rev_index = unknown @ a,
                        fwd_index = py_dict (zip (unknown @ a) [0 ..< 1 + length a]) \<rparr>)"

text \<open>\<^verbatim>\<open>encode\<close>: \<^verbatim>\<open>list(self._fwd_index.get(c, 0) for c in txt)\<close>.\<close>

definition encode :: "Text \<Rightarrow> string \<Rightarrow> nat list" where
  "encode t txt = map (\<lambda>c. case fwd_index t c of None \<Rightarrow> 0 | Some k \<Rightarrow> k) txt"

text \<open>
  Indexing a Python string with an integer: a negative index counts from the end,
  anything outside \<open>[-len, len)\<close> raises \<^verbatim>\<open>IndexError\<close>.
\<close>

definition str_index :: "string \<Rightarrow> int \<Rightarrow> py_error + char" where
  "str_index s i =
     (let n = int (length s); j = (if i < 0 then n + i else i)
      in if 0 \<le> j \<and> j < n then Inr (s ! nat j) else Inl IndexError)"

text \<open>\<^verbatim>\<open>decode\<close>: \<^verbatim>\<open>''.join(self._rev_index[c] for c in enc)\<close>; the first failing
  lookup ends the join with its error.\<close>

fun decode_chars :: "string \<Rightarrow> int list \<Rightarrow> py_error + string" where
  "decode_chars s [] = Inr []"
| "decode_chars s (c # cs) =
     (case str_index s c of
        Inl e \<Rightarrow> Inl e
      | Inr x \<Rightarrow> (case decode_chars s cs of Inl e \<Rightarrow> Inl e | Inr xs \<Rightarrow> Inr (x # xs)))"

definition decode :: "Text \<Rightarrow> int list \<Rightarrow> py_error + string" where
  "decode t enc = decode_chars (rev_index t) enc"


section \<open>The random generator and numpy arrays\<close>

text \<open>
  \<^verbatim>\<open>numpy.random.RandomState\<close> is a library object.  Its state is a value of type \<open>'r\<close>
  and its three methods used here are parameters: the constructor from an optional
  seed, which raises for a seed it does not accept (\<^verbatim>\<open>ValueError\<close> outside
  \<open>[0, 2\<^sup>3\<^sup>2)\<close>), \<^verbatim>\<open>randint\<close> for a positive bound, and \<^verbatim>\<open>multinomial(1, pdf)\<close>,
  which returns a vector of counts or raises.  The fourth parameter is the exception
  that \<^verbatim>\<open>np.arange(n)\<close> raises, if any: the library refuses a length beyond what
  it can allocate.
\<close>

record 'r np_random =
  RandomState :: "int option \<Rightarrow> py_error + 'r"
  randint :: "'r \<Rightarrow> nat \<Rightarrow> nat \<times> 'r"
  multinomial :: "'r \<Rightarrow> real list \<Rightarrow> (py_error + nat list) \<times> 'r"
  arange_error :: "int \<Rightarrow> py_error option"

text \<open>The contract of \<^verbatim>\<open>randint(n)\<close>: a value of \<open>[0, n)\<close>.\<close>

definition randint_in_range :: "'r np_random \<Rightarrow> bool" where
  "randint_in_range R \<longleftrightarrow> (\<forall>r n. 0 < n \<longrightarrow> fst (randint R r n) < n)"

text \<open>\<^verbatim>\<open>rng.randint(n)\<close> for a Python integer \<open>n\<close>: \<^verbatim>\<open>ValueError\<close> unless \<open>0 < n\<close>.\<close>

definition py_randint :: "'r np_random \<Rightarrow> 'r \<Rightarrow> int \<Rightarrow> (py_error + nat) \<times> 'r" where
  "py_randint R r n =
     (if n \<le> 0 then (Inl ValueError, r)
      else case randint R r (nat n) of (k, r') \<Rightarrow> (Inr k, r'))"

text \<open>
  The argument \<^verbatim>\<open>rng\<close>: \<^verbatim>\<open>None\<close>, an integer seed, or a generator;
  \<^verbatim>\<open>if rng is None or isinstance(rng, int): rng = np.random.RandomState(rng)\<close>.
\<close>

datatype 'r rng_arg = RngNone | RngSeed int | RngState 'r

definition make_rng :: "'r np_random \<Rightarrow> 'r rng_arg \<Rightarrow> py_error + 'r" where
  "make_rng R a =
     (case a of RngNone \<Rightarrow> RandomState R None
              | RngSeed s \<Rightarrow> RandomState R (Some s)
              | RngState r \<Rightarrow> Inr r)"

text \<open>
  A two-dimensional array (time steps, data dimensions) is its list of rows together
  with \<^verbatim>\<open>shape[1]\<close>; a three-dimensional array is a list of lists of rows.
\<close>

record 'a ndarray2 =
  ncols :: nat
  rows :: "'a list list"

definition zeros3 :: "nat \<Rightarrow> nat \<Rightarrow> nat \<Rightarrow> ('a::zero) list list list" where
  "zeros3 b t d = replicate b (replicate t (replicate d 0))"

text \<open>
  Index arrays of an advanced index are broadcast against each other: equal lengths
  pair up, a length-one array is repeated, anything else raises \<^verbatim>\<open>IndexError\<close>.
\<close>

definition broadcast_pairs :: "'a list \<Rightarrow> 'b list \<Rightarrow> py_error + ('a \<times> 'b) list" where
  "broadcast_pairs xs ys =
     (if length xs = length ys then Inr (zip xs ys)
      else if length ys = 1 then Inr (map (\<lambda>x. (x, hd ys)) xs)
      else if length xs = 1 then Inr (map (\<lambda>y. (hd xs, y)) ys)
      else Inl IndexError)"

text \<open>
  \<^verbatim>\<open>x[bs, ts, ks] = 1\<close> for index triples already paired up and with \<open>bs\<close>, \<open>ts\<close> in
  range: a class index \<open>k\<close> beyond the last axis (of size \<open>d\<close>) raises \<^verbatim>\<open>IndexError\<close>.
\<close>

fun write_ones :: "nat \<Rightarrow> real list list list \<Rightarrow> (nat \<times> nat \<times> nat) list
    \<Rightarrow> py_error + real list list list" where
  "write_ones d x [] = Inr x"
| "write_ones d x ((b, t, k) # ps) =
     (if k < d then write_ones d (x[b := (x ! b)[t := (x ! b ! t)[k := 1]]]) ps
      else Inl IndexError)"

text \<open>\<^verbatim>\<open>a.argmax(axis=-1)\<close> of a vector: the first index of a maximal entry;
  \<^verbatim>\<open>ValueError\<close> for an empty vector.\<close>

fun argmax_from :: "'a::linorder \<Rightarrow> nat \<Rightarrow> nat \<Rightarrow> 'a list \<Rightarrow> nat" where
  "argmax_from best bi i [] = bi"
| "argmax_from best bi i (x # xs) =
     (if best < x then argmax_from x i (Suc i) xs else argmax_from best bi (Suc i) xs)"

definition np_argmax :: "'a::linorder list \<Rightarrow> py_error + nat" where
  "np_argmax xs = (case xs of [] \<Rightarrow> Inl ValueError | x # xs' \<Rightarrow> Inr (argmax_from x 0 1 xs'))"

section \<open>The function \<^verbatim>\<open>batches\<close>\<close>

text \<open>
  \<^verbatim>\<open>x[i] = a[j:j+steps]\<close>, where \<open>x[i]\<close> has \<open>steps\<close> rows: the slice is clipped at the
  end of \<open>a\<close>; a slice of the right length is copied, a slice of one row is broadcast
  to every row, any other length raises \<^verbatim>\<open>ValueError\<close>.
\<close>

definition set_window :: "nat \<Rightarrow> nat \<Rightarrow> nat \<Rightarrow> 'a list list list \<Rightarrow> 'a ndarray2
    \<Rightarrow> py_error + 'a list list list" where
  "set_window i j steps x a =
     (let w = take steps (drop j (rows a))
      in if length w = steps then Inr (x[i := w])
         else if length w = 1 then Inr (x[i := replicate steps (hd w)])
         else Inl ValueError)"

text \<open>\<^verbatim>\<open>for x, a in zip(xs, arrays): x[i] = a[j:j+steps]\<close>\<close>

fun set_windows :: "nat \<Rightarrow> nat \<Rightarrow> nat \<Rightarrow> 'a list list list list \<Rightarrow> 'a ndarray2 list
    \<Rightarrow> py_error + 'a list list list list" where
  "set_windows i j steps (x # xs) (a # as) =
     (case set_window i j steps x a of
        Inl e \<Rightarrow> Inl e
      | Inr x' \<Rightarrow> (case set_windows i j steps xs as of
                     Inl e \<Rightarrow> Inl e
                   | Inr xs' \<Rightarrow> Inr (x' # xs')))"
| "set_windows i j steps xs as = Inr []"

text \<open>The loop \<^verbatim>\<open>for i in range(batch_size)\<close> of \<^verbatim>\<open>sample\<close>, over the remaining
  values of \<open>i\<close>; \<^verbatim>\<open>arrays[0]\<close> raises \<^verbatim>\<open>IndexError\<close> for an empty list.\<close>

fun sample_loop :: "'r np_random \<Rightarrow> 'a ndarray2 list \<Rightarrow> nat \<Rightarrow> nat list
    \<Rightarrow> 'a list list list list \<Rightarrow> 'r \<Rightarrow> (py_error + 'a list list list list) \<times> 'r" where
  "sample_loop R arrays steps [] xs r = (Inr xs, r)"
| "sample_loop R arrays steps (i # is) xs r =
     (case arrays of
        [] \<Rightarrow> (Inl IndexError, r)
      | a0 # _ \<Rightarrow>
          (case py_randint R r (int (length (rows a0)) - int steps) of
             (Inl e, r') \<Rightarrow> (Inl e, r')
           | (Inr j, r') \<Rightarrow>
               (case set_windows i j steps xs arrays of
                  Inl e \<Rightarrow> (Inl e, r')
                | Inr xs' \<Rightarrow> sample_loop R arrays steps is xs' r')))"

text \<open>
  The closure \<^verbatim>\<open>sample\<close>, as a function of the generator state it has captured.
  \<^verbatim>\<open>np.zeros\<close> raises \<^verbatim>\<open>ValueError\<close> for a negative dimension.
\<close>

definition sample :: "'r np_random \<Rightarrow> ('a::zero) ndarray2 list \<Rightarrow> int \<Rightarrow> int \<Rightarrow> 'r
    \<Rightarrow> (py_error + 'a list list list list) \<times> 'r" where
  "sample R arrays steps batch_size r =
     (if steps < 0 \<and> arrays \<noteq> [] then (Inl ValueError, r)
      else sample_loop R arrays (nat steps) [0 ..< nat batch_size]
             (map (\<lambda>a. zeros3 (nat batch_size) (nat steps) (ncols a)) arrays) r)"

text \<open>
  \<^verbatim>\<open>batches(arrays, steps, batch_size, rng)\<close> returns the closure: the generator it
  captured and the function called on each invocation.  (The type of \<open>arrays\<close> makes
  the second assertion true.)
\<close>

definition batches :: "'r np_random \<Rightarrow> ('a::zero) ndarray2 list \<Rightarrow> int \<Rightarrow> int \<Rightarrow> 'r rng_arg
    \<Rightarrow> py_error + 'r \<times> ('r \<Rightarrow> (py_error + 'a list list list list) \<times> 'r)" where
  "batches R arrays steps batch_size rng =
     (if batch_size < 2 then Inl AssertionError
      else case make_rng R rng of
             Inl e \<Rightarrow> Inl e
           | Inr r \<Rightarrow> Inr (r, sample R arrays steps batch_size))"

section \<open>The method \<^verbatim>\<open>Text.classifier_batches\<close>\<close>

text \<open>
  \<^verbatim>\<open>outputs[b, T] = enc[1:]\<close>: the value is broadcast to the \<open>steps\<close> selected
  entries; a value of another length than \<open>steps\<close> or one raises \<^verbatim>\<open>ValueError\<close>.
\<close>

definition set_targets :: "nat \<Rightarrow> nat \<Rightarrow> int list list \<Rightarrow> int list \<Rightarrow> py_error + int list list" where
  "set_targets steps b outputs v =
     (if length v = steps then Inr (outputs[b := v])
      else if length v = 1 then Inr (outputs[b := replicate steps (hd v)])
      else Inl ValueError)"

text \<open>
  The body of the loop over \<open>b\<close> after the offset is drawn:
  \<^verbatim>\<open>enc = self.encode(self.text[offset:offset + steps + 1])\<close>,
  \<^verbatim>\<open>inputs[b, T, enc[:-1]] = 1\<close> and \<^verbatim>\<open>outputs[b, T] = enc[1:]\<close>, where
  \<^verbatim>\<open>T = np.arange(steps)\<close>.
\<close>

definition batch_row :: "Text \<Rightarrow> nat \<Rightarrow> nat \<Rightarrow> nat \<Rightarrow> real list list list \<times> int list list
    \<Rightarrow> py_error + real list list list \<times> int list list" where
  "batch_row t steps b offset io =
     (let enc = encode t (take (steps + 1) (drop offset (text_attr t)))
      in case broadcast_pairs [0 ..< steps] (butlast enc) of
           Inl e \<Rightarrow> Inl e
         | Inr ps \<Rightarrow>
             (case write_ones (1 + length (alpha t)) (fst io) (map (\<lambda>(s, k). (b, s, k)) ps) of
                Inl e \<Rightarrow> Inl e
              | Inr inputs' \<Rightarrow>
                  (case set_targets steps b (snd io) (map int (tl enc)) of
                     Inl e \<Rightarrow> Inl e
                   | Inr outputs' \<Rightarrow> Inr (inputs', outputs'))))"

text \<open>\<^verbatim>\<open>offset = rng.randint(len(self.text) - steps - 1)\<close>\<close>

definition draw_offset :: "'r np_random \<Rightarrow> Text \<Rightarrow> nat \<Rightarrow> 'r \<Rightarrow> (py_error + nat) \<times> 'r" where
  "draw_offset R t steps r = py_randint R r (int (length (text_attr t)) - int steps - 1)"

fun batch_loop :: "'r np_random \<Rightarrow> Text \<Rightarrow> nat \<Rightarrow> nat list
    \<Rightarrow> real list list list \<times> int list list \<Rightarrow> 'r
    \<Rightarrow> (py_error + real list list list \<times> int list list) \<times> 'r" where
  "batch_loop R t steps [] io r = (Inr io, r)"
| "batch_loop R t steps (b # bs) io r =
     (case draw_offset R t steps r of
        (Inl e, r') \<Rightarrow> (Inl e, r')
      | (Inr offset, r') \<Rightarrow>
          (case batch_row t steps b offset io of
             Inl e \<Rightarrow> (Inl e, r')
           | Inr io' \<Rightarrow> batch_loop R t steps bs io' r'))"

text \<open>The closure \<^verbatim>\<open>batch\<close>; the pair stands for the list \<^verbatim>\<open>[inputs, outputs]\<close>.\<close>

definition batch :: "'r np_random \<Rightarrow> Text \<Rightarrow> int \<Rightarrow> int \<Rightarrow> 'r
    \<Rightarrow> (py_error + real list list list \<times> int list list) \<times> 'r" where
  "batch R t steps batch_size r =
     (if steps < 0 then (Inl ValueError, r)
      else batch_loop R t (nat steps) [0 ..< nat batch_size]
             (zeros3 (nat batch_size) (nat steps) (1 + length (alpha t)),
              replicate (nat batch_size) (replicate (nat steps) 0)) r)"

text \<open>
  \<^verbatim>\<open>classifier_batches\<close>: the assertion, the generator, \<^verbatim>\<open>T = np.arange(steps)\<close>
  (empty for a negative \<open>steps\<close>), and the closure.
\<close>

definition classifier_batches :: "'r np_random \<Rightarrow> Text \<Rightarrow> int \<Rightarrow> int \<Rightarrow> 'r rng_arg
    \<Rightarrow> py_error + 'r \<times> ('r \<Rightarrow> (py_error + real list list list \<times> int list list) \<times> 'r)" where
  "classifier_batches R t steps batch_size rng =
     (if batch_size < 2 then Inl AssertionError
      else case make_rng R rng of
             Inl e \<Rightarrow> Inl e
           | Inr r \<Rightarrow>
               (case arange_error R steps of
                  Some e \<Rightarrow> Inl e
                | None \<Rightarrow> Inr (r, batch R t steps batch_size)))"

section \<open>The method \<^verbatim>\<open>Classifier.predict_sequence\<close>\<close>

text \<open>
  The network enters through two parameters: \<open>size\<close> is \<^verbatim>\<open>self.layers[0].size\<close>
  and \<open>predict_proba\<close> is \<^verbatim>\<open>self.predict_proba\<close>, from a three-dimensional array to
  an error or a three-dimensional array of probabilities.
\<close>

text \<open>An index along an axis of size \<open>n\<close>; a negative index counts from the end.\<close>

definition norm_index :: "nat \<Rightarrow> int \<Rightarrow> py_error + nat" where
  "norm_index n i =
     (if 0 \<le> i \<and> i < int n then Inr (nat i)
      else if - int n \<le> i \<and> i < 0 then Inr (nat (i + int n))
      else Inl IndexError)"

text \<open>
  \<^verbatim>\<open>inputs[:, np.arange(offset), labels] = 1\<close>, from time step \<open>s\<close> on: every row
  gets the one at \<open>(s, label)\<close>.  The time axis has \<open>time\<close> entries.
\<close>

fun write_seed :: "nat \<Rightarrow> nat \<Rightarrow> real list list list \<Rightarrow> nat \<Rightarrow> int list
    \<Rightarrow> py_error + real list list list" where
  "write_seed d time x s [] = Inr x"
| "write_seed d time x s (l # ls) =
     (if time \<le> s then Inl IndexError
      else case norm_index d l of
             Inl e \<Rightarrow> Inl e
           | Inr k \<Rightarrow> write_seed d time (map (\<lambda>row. row[s := (row ! s)[k := 1]]) x) (Suc s) ls)"

text \<open>\<^verbatim>\<open>q[:, -1]\<close>: the last entry along the second axis, for every row.\<close>

definition last_step :: "'a list list \<Rightarrow> py_error + 'a list" where
  "last_step q = (if [] \<in> set q then Inl IndexError else Inr (map last q))"

text \<open>
  The body of \<^verbatim>\<open>for pdf in ...\<close> up to \<^verbatim>\<open>int(c)\<close>:
  \<^verbatim>\<open>try: c = rng.multinomial(1, pdf).argmax(axis=-1)\<close>,
  \<^verbatim>\<open>except ValueError: c = pdf.argmax(axis=-1)\<close>.
  Any other exception of the draw, and an exception of the handler, leave the method.
\<close>

definition draw_char :: "'r np_random \<Rightarrow> 'r \<Rightarrow> real list \<Rightarrow> (py_error + nat) \<times> 'r" where
  "draw_char R r pdf =
     (case multinomial R r pdf of
        (Inr counts, r') \<Rightarrow>
          (case np_argmax counts of
             Inr c \<Rightarrow> (Inr c, r')
           | Inl e \<Rightarrow> if e = ValueError then (np_argmax pdf, r') else (Inl e, r'))
      | (Inl e, r') \<Rightarrow> if e = ValueError then (np_argmax pdf, r') else (Inl e, r'))"

text \<open>The loop \<^verbatim>\<open>for pdf in ...: ...; chars.append(int(c))\<close>.\<close>

fun sample_chars :: "'r np_random \<Rightarrow> 'r \<Rightarrow> real list list \<Rightarrow> (py_error + nat list) \<times> 'r" where
  "sample_chars R r [] = (Inr [], r)"
| "sample_chars R r (pdf # pdfs) =
     (case draw_char R r pdf of
        (Inl e, r') \<Rightarrow> (Inl e, r')
      | (Inr c, r') \<Rightarrow>
          (case sample_chars R r' pdfs of
             (Inl e, r'') \<Rightarrow> (Inl e, r'')
           | (Inr cs, r'') \<Rightarrow> (Inr (c # cs), r'')))"

text \<open>The value of \<^verbatim>\<open>yield chars[0] if streams == 1 else chars\<close>.\<close>

datatype label_out = Single nat | Many "nat list"

text \<open>The argument of the query in iteration \<open>i\<close>: \<^verbatim>\<open>inputs[:i]\<close>.\<close>

definition query_arg :: "nat \<Rightarrow> real list list list \<Rightarrow> real list list list" where
  "query_arg i inputs = take i inputs"

text \<open>
  One iteration of \<^verbatim>\<open>for i in range(offset, offset + steps)\<close>, from the buffer and the
  generator state to the yielded value and the new buffer, or to the exception raised.
\<close>

definition gen_step :: "'r np_random \<Rightarrow> (real list list list \<Rightarrow> py_error + real list list list)
    \<Rightarrow> nat \<Rightarrow> nat \<Rightarrow> int \<Rightarrow> nat \<Rightarrow> real list list list \<Rightarrow> 'r
    \<Rightarrow> (py_error + label_out \<times> real list list list) \<times> 'r" where
  "gen_step R predict_proba d batch_n streams i inputs r =
     (case predict_proba (query_arg i inputs) of
        Inl e \<Rightarrow> (Inl e, r)
      | Inr q \<Rightarrow>
          (case last_step q of
             Inl e \<Rightarrow> (Inl e, r)
           | Inr pdfs \<Rightarrow>
               (case sample_chars R r pdfs of
                  (Inl e, r') \<Rightarrow> (Inl e, r')
                | (Inr chars, r') \<Rightarrow>
                    (case broadcast_pairs [0 ..< batch_n] chars of
                       Inl e \<Rightarrow> (Inl e, r')
                     | Inr ps \<Rightarrow>
                         (case write_ones d inputs (map (\<lambda>(b, c). (b, i, c)) ps) of
                            Inl e \<Rightarrow> (Inl e, r')
                          | Inr inputs' \<Rightarrow>
                              (if streams = 1
                               then (case chars of
                                       [] \<Rightarrow> (Inl IndexError, r')
                                     | c # _ \<Rightarrow> (Inr (Single c, inputs'), r'))
                               else (Inr (Many chars, inputs'), r')))))))"

text \<open>
  The generator, run to its end: the values it yields in order, and the exception
  that ends it, if one does.
\<close>

fun gen_loop :: "'r np_random \<Rightarrow> (real list list list \<Rightarrow> py_error + real list list list)
    \<Rightarrow> nat \<Rightarrow> nat \<Rightarrow> int \<Rightarrow> nat list \<Rightarrow> real list list list \<Rightarrow> 'r
    \<Rightarrow> label_out list \<times> py_error option" where
  "gen_loop R predict_proba d batch_n streams [] inputs r = ([], None)"
| "gen_loop R predict_proba d batch_n streams (i # is) inputs r =
     (case gen_step R predict_proba d batch_n streams i inputs r of
        (Inl e, r') \<Rightarrow> ([], Some e)
      | (Inr (y, inputs'), r') \<Rightarrow>
          (case gen_loop R predict_proba d batch_n streams is inputs' r' of
             (ys, fin) \<Rightarrow> (y # ys, fin)))"

text \<open>The buffer after \<^verbatim>\<open>inputs[:, np.arange(offset), labels] = 1\<close>.\<close>

definition seed_buffer :: "nat \<Rightarrow> int list \<Rightarrow> int \<Rightarrow> int \<Rightarrow> py_error + real list list list" where
  "seed_buffer d labels steps streams =
     (if int (length labels) + steps < 0 then Inl ValueError
      else write_seed d (nat (int (length labels) + steps))
             (zeros3 (nat (max 2 streams)) (nat (int (length labels) + steps)) d) 0 labels)"

definition predict_sequence :: "'r np_random
    \<Rightarrow> (real list list list \<Rightarrow> py_error + real list list list) \<Rightarrow> nat
    \<Rightarrow> int list \<Rightarrow> int \<Rightarrow> int \<Rightarrow> 'r rng_arg \<Rightarrow> label_out list \<times> py_error option" where
  "predict_sequence R predict_proba d labels steps streams rng =
     (case make_rng R rng of
        Inl e \<Rightarrow> ([], Some e)
      | Inr r \<Rightarrow>
          (case seed_buffer d labels steps streams of
             Inl e \<Rightarrow> ([], Some e)
           | Inr inputs \<Rightarrow>
               gen_loop R predict_proba d (nat (max 2 streams)) streams
                 [length labels ..< nat (int (length labels) + steps)] inputs r))"

section \<open>Notions used to state the properties\<close>

text \<open>The one-hot vector of length \<open>d\<close> for the class \<open>k\<close>.\<close>

definition one_hot :: "nat \<Rightarrow> nat \<Rightarrow> real list" where
  "one_hot d k = (replicate d 0)[k := 1]"

text \<open>The results of \<open>k\<close> successive calls \<^verbatim>\<open>rng.randint(n)\<close> from the state \<open>r\<close>.\<close>

fun offsets :: "'r np_random \<Rightarrow> nat \<Rightarrow> nat \<Rightarrow> 'r \<Rightarrow> nat list" where
  "offsets R n 0 r = []"
| "offsets R n (Suc k) r = (case randint R r n of (j, r') \<Rightarrow> j # offsets R n k r')"



section \<open>Concrete inputs\<close>

text \<open>A template parser that rejects every template; the inputs below have no backslash.\<close>

definition no_template :: "string \<Rightarrow> (char \<Rightarrow> string) option" where
  "no_template = (\<lambda>_. None)"

text \<open>The object built by \<^verbatim>\<open>Text('a??a??', unknown='?')\<close>.\<close>

definition ab_text :: Text where
  "ab_text = \<lparr> text_attr = ''a??a??'', alpha = ''a'', rev_index = ''?a'',
               fwd_index = py_dict (zip ''?a'' [0 ..< 1 + length ''a'']) \<rparr>"


text \<open>
  A deterministic generator: the state counts the draws and starts at the seed, which
  must lie in \<open>[0, 2\<^sup>3\<^sup>2)\<close>; \<^verbatim>\<open>randint(n)\<close> returns the state modulo \<open>n\<close>, and
  \<^verbatim>\<open>multinomial(1, pdf)\<close> raises \<^verbatim>\<open>ValueError\<close> when the probabilities add up to
  more than one and otherwise puts its one trial at the state modulo the number of
  classes.  \<^verbatim>\<open>np.arange(n)\<close> raises from \<open>2\<^sup>6\<^sup>3\<close> on.
\<close>

definition toy_rng :: "nat np_random" where
  "toy_rng = \<lparr> RandomState = (\<lambda>s. case s of
                   None \<Rightarrow> Inr 0
                 | Some k \<Rightarrow> if 0 \<le> k \<and> k < 4294967296 then Inr (nat k) else Inl ValueError),
               randint = (\<lambda>r n. (r mod n, Suc r)),
               multinomial = (\<lambda>r pdf.
                 (if 1 < sum_list pdf then Inl ValueError
                  else Inr ((replicate (length pdf) 0)[r mod length pdf := 1]), Suc r)),
               arange_error = (\<lambda>n. if 9223372036854775808 \<le> n then Some ValueError else None) \<rparr>"

text \<open>Four networks over two classes: one that answers every query with the uniform
  distribution at every time step, one that answers with weights adding up to more
  than one, one that answers the query \<open>q\<close> only and raises on any other, and one that
  gives the first row the distribution \<open>(1/4, 3/4)\<close> and every other row weights adding
  up to more than one.\<close>

definition uniform2 :: "real list list list \<Rightarrow> py_error + real list list list" where
  "uniform2 x = Inr (map (map (\<lambda>_. [1/2, 1/2])) x)"

definition heavy2 :: "real list list list \<Rightarrow> py_error + real list list list" where
  "heavy2 x = Inr (map (map (\<lambda>_. [7/10, 9/10])) x)"

definition answers_only ::
  "real list list list \<Rightarrow> real list list list \<Rightarrow> py_error + real list list list" where
  "answers_only q x = (if x = q then uniform2 x else Inl OtherError)"


text \<open>Two aligned arrays of five time steps.\<close>

definition arr_a :: "int ndarray2" where
  "arr_a = \<lparr> ncols = 1, rows = [[0], [1], [2], [3], [4]] \<rparr>"

definition arr_b :: "int ndarray2" where
  "arr_b = \<lparr> ncols = 2, rows = [[0, 0], [10, 11], [20, 22], [30, 33], [40, 44]] \<rparr>"

section \<open>Properties of \<^verbatim>\<open>Text\<close>\<close>

subsection \<open>The inferred alphabet and the two indexes\<close>

lemma infer_alpha_set:
  "set (infer_alpha txt mc u) = {c \<in> set txt. [c] \<noteq> u \<and> int (count_list txt c) \<ge> mc}"
  by (auto simp: infer_alpha_def)

lemma infer_alpha_distinct: "distinct (infer_alpha txt mc u)"
  by (simp add: infer_alpha_def)

lemma sublist_single: "sublist [x] ys \<longleftrightarrow> x \<in> set ys"
  by (induction ys) (auto simp: sublist_Cons_right)

lemma py_dict_map_of: "py_dict kvs = map_of (rev kvs)"
proof -
  have "fold (\<lambda>(k, v) m. m(k \<mapsto> v)) kvs m = m ++ map_of (rev kvs)" for m :: "'a \<rightharpoonup> 'b"
    by (induction kvs arbitrary: m) (auto simp: map_add_def fun_eq_iff split: option.splits)
  then show ?thesis by (simp add: py_dict_def)
qed

lemma py_dict_distinct:
  assumes "distinct ks" "i < length ks" "length ks = length vs"
  shows "py_dict (zip ks vs) (ks ! i) = Some (vs ! i)"
proof -
  have d: "distinct (map fst (rev (zip ks vs)))"
    using assms by (simp add: rev_map[symmetric] distinct_rev)
  have "(ks ! i, vs ! i) \<in> set (rev (zip ks vs))"
    using assms by (auto simp: set_zip)
  then show ?thesis
    using d by (simp add: py_dict_map_of)
qed

lemma py_dict_range:
  "py_dict (zip ks [0 ..< n]) c = Some k \<Longrightarrow> k < n"
  by (auto simp: py_dict_map_of dest!: map_of_SomeD set_zip_rightD)

lemma Text_init_fields:
  assumes "Text_init tmpl txt a mc u = Inr t" "length u = 1"
  shows "\<exists>x. u = [x] \<and> x \<notin> set (alpha t) \<and> rev_index t = x # alpha t
           \<and> fwd_index t = py_dict (zip (x # alpha t) [0 ..< 1 + length (alpha t)])
           \<and> alpha t \<noteq> []
           \<and> alpha t = (case a of None \<Rightarrow> infer_alpha txt mc u | Some a' \<Rightarrow> a')"
proof -
  obtain x where u: "u = [x]" using assms(2) by (cases u) auto
  show ?thesis
    using assms(1) unfolding Text_init_def Let_def u
    by (auto simp: sublist_single re_sub_not_in_def split: sum.splits if_splits option.splits)
qed

lemma decode_single:
  "decode t [c] = (case str_index (rev_index t) c of Inl e \<Rightarrow> Inl e | Inr x \<Rightarrow> Inr [x])"
  by (simp add: decode_def split: sum.splits)

lemma ab_text_init: "Text_init no_template ''a??a??'' None 2 ''?'' = Inr ab_text"
  by (simp add: Text_init_def Let_def infer_alpha_def re_sub_not_in_def backslash_def
      ab_text_def sublist_code prefix_code)

subsection \<open>Cleaning\<close>

text \<open>
  With a non-empty alphabet and a one-character unknown symbol other than the
  backslash, construction maps every character outside the alphabet to the unknown
  symbol and keeps the others, and doing so again changes nothing.
\<close>

lemma concat_map_single:
  "concat (map (\<lambda>c. if P c then [c] else [x]) xs) = map (\<lambda>c. if P c then c else x) xs"
  by (induction xs) auto

lemma Text_init_cleaned:
  assumes "Text_init tmpl txt a mc [x] = Inr t" and "x \<noteq> backslash"
  shows "text_attr t = map (\<lambda>c. if c \<in> set (alpha t) then c else x) txt"
  using assms unfolding Text_init_def Let_def re_sub_not_in_def
  by (auto simp: concat_map_single split: if_splits option.splits)

lemma Text_init_idempotent:
  assumes "Text_init tmpl txt a mc [x] = Inr t" and "x \<noteq> backslash"
  shows "Text_init tmpl (text_attr t) (Some (alpha t)) mc' [x] = Inr t"
proof -
  have c: "text_attr t = map (\<lambda>c. if c \<in> set (alpha t) then c else x) txt"
    by (rule Text_init_cleaned[OF assms])
  have "map (\<lambda>c. if c \<in> set (alpha t) then c else x) (text_attr t) = text_attr t"
    unfolding c by (induction "txt") auto
  moreover from Text_init_fields[OF assms(1)] have "alpha t \<noteq> []" "x \<notin> set (alpha t)"
    "rev_index t = x # alpha t"
    "fwd_index t = py_dict (zip (x # alpha t) [0 ..< 1 + length (alpha t)])"
    by auto
  ultimately show ?thesis
    using assms(2) unfolding Text_init_def Let_def re_sub_not_in_def
    by (simp add: concat_map_single sublist_single)
qed

text \<open>
  C5.  The claim is that for every raw text construction replaces exactly the
  characters outside the alphabet by the unknown symbol.  For the text \<open>abc\<close> and
  the default arguments no character occurs twice, the inferred alphabet is empty,
  the pattern is \<^verbatim>\<open>[^]\<close> and construction ends with \<^verbatim>\<open>re.error\<close> instead of
  producing the text of three unknown symbols.
\<close>

theorem Text_init_empty_alphabet_fails:
  "infer_alpha ''abc'' 2 [CHR 0x00] = [] \<and>
   Text_init no_template ''abc'' None 2 [CHR 0x00] = Inl ReError"
  by (simp add: Text_init_def infer_alpha_def re_sub_not_in_def)

subsection \<open>Decoding\<close>

lemma str_index_cases:
  "str_index s c =
     (if c < - int (length s) \<or> int (length s) \<le> c then Inl IndexError
      else Inr (s ! nat (if 0 \<le> c then c else c + int (length s))))"
  by (auto simp: str_index_def Let_def algebra_simps)

lemma decode_chars_cases:
  "decode_chars s cs =
     (if \<exists>c \<in> set cs. c < - int (length s) \<or> int (length s) \<le> c then Inl IndexError
      else Inr (map (\<lambda>c. s ! nat (if 0 \<le> c then c else c + int (length s))) cs))"
proof (induction cs)
  case Nil
  then show ?case by simp
next
  case (Cons c cs)
  show ?case
  proof (cases "c < - int (length s) \<or> int (length s) \<le> c")
    case True
    then show ?thesis by (simp add: str_index_cases)
  next
    case False
    then have "str_index s c = Inr (s ! nat (if 0 \<le> c then c else c + int (length s)))"
      by (simp add: str_index_cases)
    then show ?thesis using False Cons.IH by simp
  qed
qed

text \<open>
  C2, as amended.  For a \<^verbatim>\<open>Text\<close> with a one-character unknown symbol and alphabet size
  \<open>N\<close>, and every list of integer codes: if the list contains a code \<open>c\<close> with
  \<open>c < -(N+1)\<close> or \<open>N < c\<close>, decoding it raises \<^verbatim>\<open>IndexError\<close> and returns no
  string; otherwise it returns, code by code, the symbol of the reverse map at \<open>c\<close>
  for \<open>0 \<le> c \<le> N\<close>, and the symbol at \<open>c + N + 1\<close> for \<open>-(N+1) \<le> c < 0\<close>.
\<close>

theorem decode_codes:
  assumes "Text_init tmpl txt a mc u = Inr t" and "length u = 1"
  shows "decode t cs =
     (if \<exists>c \<in> set cs. c < - (1 + int (length (alpha t))) \<or> int (length (alpha t)) < c
      then Inl IndexError
      else Inr (map (\<lambda>c. rev_index t !
                     nat (if 0 \<le> c then c else c + 1 + int (length (alpha t)))) cs))"
proof -
  from Text_init_fields[OF assms] obtain x where "rev_index t = x # alpha t" by blast
  then have l: "int (length (rev_index t)) = 1 + int (length (alpha t))" by simp
  have e: "(c < - (1 + int (length (alpha t))) \<or> 1 + int (length (alpha t)) \<le> c)
         = (c < - (1 + int (length (alpha t))) \<or> int (length (alpha t)) < c)" for c
    by auto
  have m: "(c + (1 + int (length (alpha t)))) = c + 1 + int (length (alpha t))" for c
    by simp
  show ?thesis
    unfolding decode_def decode_chars_cases l e m by (rule refl)
qed

text \<open>The amended statement at \<^verbatim>\<open>Text('a??a??', unknown='?')\<close>: a list of valid codes,
  a list with the code 2 after a valid one, and a list with the code -3.\<close>

theorem decode_codes_witness:
  "Text_init no_template ''a??a??'' None 2 ''?'' = Inr ab_text \<and> length ''?'' = 1
   \<and> decode ab_text [1, 0, - 1, - 2] = Inr ''a?a?''
   \<and> decode ab_text [0, 2] = Inl IndexError
   \<and> decode ab_text [1, - 3, 0] = Inl IndexError"
proof -
  have h: "Text_init no_template ''a??a??'' None 2 ''?'' = Inr ab_text" by (rule ab_text_init)
  have l: "length ''?'' = 1" by simp
  have n: "length (alpha ab_text) = 1" and r: "rev_index ab_text = ''?a''"
    by (simp_all add: ab_text_def)
  have a: "decode ab_text [1, 0, - 1, - 2] = Inr ''a?a?''"
    using decode_codes[OF h l, of "[1, 0, - 1, - 2]"] by (simp add: n r)
  have b: "decode ab_text [0, 2] = Inl IndexError"
    using decode_codes[OF h l, of "[0, 2]"] by (simp add: n r)
  have c: "decode ab_text [1, - 3, 0] = Inl IndexError"
    using decode_codes[OF h l, of "[1, - 3, 0]"] by (simp add: n r)
  show ?thesis by (intro conjI h l a b c)
qed

text \<open>
  The claim as stated fails: the code \<open>-1\<close> lies outside \<open>[0, 1]\<close>, and decoding a
  list containing it returns the last symbol of the alphabet in its place.
\<close>

theorem decode_negative_code_counterexample:
  "Text_init no_template ''a??a??'' None 2 ''?'' = Inr ab_text
   \<and> length (alpha ab_text) = 1 \<and> decode ab_text [- 1] = Inr ''a''"
  by (simp add: ab_text_init) (simp add: decode_def str_index_def ab_text_def)

subsection \<open>Round trip\<close>

text \<open>
  C6.  For every alphabet index, that is a \<^verbatim>\<open>Text\<close> with a one-character unknown
  symbol whose alphabet is a sequence of distinct symbols (every inferred alphabet is
  one), and every code \<open>c\<close> with \<open>0 \<le> c \<le> N\<close>: decoding \<open>[c]\<close> succeeds and
  encoding the result gives \<open>[c]\<close>.
\<close>

theorem encode_decode_roundtrip:
  assumes "Text_init tmpl txt a mc u = Inr t" and "length u = 1"
    and "a = None \<or> distinct (alpha t)"
    and "0 \<le> c" and "c \<le> int (length (alpha t))"
  shows "\<exists>s. decode t [c] = Inr s \<and> map int (encode t s) = [c]"
proof -
  from Text_init_fields[OF assms(1,2)] obtain x where
    x: "x \<notin> set (alpha t)" "rev_index t = x # alpha t"
       "fwd_index t = py_dict (zip (x # alpha t) [0 ..< 1 + length (alpha t)])"
       "alpha t = (case a of None \<Rightarrow> infer_alpha txt mc u | Some a' \<Rightarrow> a')" by blast
  have "distinct (alpha t)"
    using assms(3) x(4) by (auto simp: infer_alpha_distinct)
  then have d: "distinct (x # alpha t)" using x(1) by simp
  have i: "nat c < length (x # alpha t)" using assms(4,5) by simp
  have "fwd_index t ((x # alpha t) ! nat c) = Some ([0 ..< 1 + length (alpha t)] ! nat c)"
    unfolding x(3) using d i by (intro py_dict_distinct) simp_all
  also have "[0 ..< 1 + length (alpha t)] ! nat c = nat c"
    using i by (metis add_0 length_Cons nth_upt plus_1_eq_Suc)
  finally have f: "fwd_index t ((x # alpha t) ! nat c) = Some (nat c)" .
  have "decode t [c] = Inr [(x # alpha t) ! nat c]"
    using assms(4,5) by (simp add: decode_single str_index_def x(2))
  moreover have "map int (encode t [(x # alpha t) ! nat c]) = [c]"
    using f assms(4) by (simp add: encode_def)
  ultimately show ?thesis by simp
qed

text \<open>The round trip at \<^verbatim>\<open>Text('a??a??', unknown='?')\<close> and the code 1.\<close>

theorem encode_decode_roundtrip_witness:
  "Text_init no_template ''a??a??'' None 2 ''?'' = Inr ab_text \<and> length ''?'' = 1
   \<and> ((None :: string option) = None \<or> distinct (alpha ab_text))
   \<and> (0::int) \<le> 1 \<and> 1 \<le> int (length (alpha ab_text))
   \<and> (\<exists>s. decode ab_text [1] = Inr s \<and> map int (encode ab_text s) = [1])"
proof -
  have h: "Text_init no_template ''a??a??'' None 2 ''?'' = Inr ab_text" by (rule ab_text_init)
  have l: "length ''?'' = 1" by simp
  have d: "(None :: string option) = None \<or> distinct (alpha ab_text)" by simp
  have c: "(0::int) \<le> 1" "1 \<le> int (length (alpha ab_text))" by (simp_all add: ab_text_def)
  show ?thesis
    using h l d c encode_decode_roundtrip[OF h l d c] by simp
qed

subsection \<open>The assertion of the constructor\<close>

text \<open>
  C10.  When the alphabet is inferred and the unknown symbol is one character, the
  inferred alphabet does not contain the unknown symbol, for every text and every
  \<open>min_count\<close>, and construction never ends with the \<^verbatim>\<open>AssertionError\<close>.
\<close>

theorem inferred_alpha_excludes_unknown:
  assumes "length unknown = 1"
  shows "\<not> sublist unknown (infer_alpha txt min_count unknown)
       \<and> Text_init tmpl txt None min_count unknown \<noteq> Inl AssertionError"
proof -
  obtain x where u: "unknown = [x]" using assms by (cases unknown) auto
  have n: "\<not> sublist unknown (infer_alpha txt min_count unknown)"
    by (simp add: u sublist_single infer_alpha_set)
  then show ?thesis
    by (auto simp: Text_init_def Let_def re_sub_not_in_def
        split: sum.splits option.splits if_splits)
qed

text \<open>The text \<open>a??a??\<close> has the unknown symbol \<open>?\<close> four times; it is not in the alphabet.\<close>

theorem inferred_alpha_excludes_unknown_witness:
  "length ''?'' = 1 \<and> \<not> sublist ''?'' (infer_alpha ''a??a??'' 2 ''?'')
   \<and> Text_init no_template ''a??a??'' None 2 ''?'' \<noteq> Inl AssertionError"
  using inferred_alpha_excludes_unknown[of "''?''" "''a??a??''" 2 no_template] by simp

section \<open>Properties of \<^verbatim>\<open>Classifier.predict_sequence\<close>\<close>

subsection \<open>The greedy choice\<close>



lemma sample_chars_append:
  "sample_chars R r (pre @ post) =
     (case sample_chars R r pre of
        (Inl e, r1) \<Rightarrow> (Inl e, r1)
      | (Inr cs, r1) \<Rightarrow>
          (case sample_chars R r1 post of
             (Inl e, r2) \<Rightarrow> (Inl e, r2)
           | (Inr cs', r2) \<Rightarrow> (Inr (cs @ cs'), r2)))"
  by (induction pre arbitrary: r) (auto split: prod.splits sum.splits)

lemma sample_chars_length:
  "sample_chars R r pdfs = (Inr cs, r') \<Longrightarrow> length cs = length pdfs"
  by (induction pdfs arbitrary: r cs) (auto split: prod.splits sum.splits)









subsection \<open>The query and the yielded values\<close>

text \<open>
  The buffer has \<open>max(2, streams)\<close> rows of \<open>offset + steps\<close> time steps, and the
  query in iteration \<open>i\<close> consists of the first \<open>min(i, max(2, streams))\<close> rows, each
  with all the time steps.
\<close>

lemma write_seed_shape:
  "write_seed d time x s ls = Inr y \<Longrightarrow> map length y = map length x"
proof (induction ls arbitrary: x s)
  case Nil
  then show ?case by simp
next
  case (Cons l ls)
  from Cons.prems obtain k where
    "write_seed d time (map (\<lambda>row. row[s := (row ! s)[k := 1]]) x) (Suc s) ls = Inr y"
    by (auto split: if_splits sum.splits)
  from Cons.IH[OF this] show ?case by (simp add: comp_def)
qed

lemma seed_buffer_shape:
  assumes "seed_buffer d labels steps streams = Inr buf"
  shows "length buf = nat (max 2 streams)
       \<and> (\<forall>row \<in> set buf. length row = nat (int (length labels) + steps))"
proof -
  have "map length buf =
          map length (zeros3 (nat (max 2 streams)) (nat (int (length labels) + steps)) d :: real list list list)"
    using assms by (auto simp: seed_buffer_def split: if_splits intro: write_seed_shape)
  then have m: "map length buf = replicate (nat (max 2 streams)) (nat (int (length labels) + steps))"
    by (simp add: zeros3_def)
  have "length buf = length (map length buf)" by simp
  also have "\<dots> = nat (max 2 streams)" unfolding m by simp
  finally have l: "length buf = nat (max 2 streams)" .
  have "length row = nat (int (length labels) + steps)" if "row \<in> set buf" for row
  proof -
    from that have "length row \<in> set (map length buf)" by simp
    then show ?thesis unfolding m by simp
  qed
  with l show ?thesis by blast
qed

lemma query_arg_all_time_steps:
  assumes "seed_buffer d labels steps streams = Inr buf"
  shows "length (query_arg i buf) = min i (nat (max 2 streams))
       \<and> (\<forall>row \<in> set (query_arg i buf). length row = nat (int (length labels) + steps))"
  using seed_buffer_shape[OF assms] by (auto simp: query_arg_def dest: in_set_takeD)

lemma predict_sequence_no_steps:
  "make_rng R rng = Inr r \<Longrightarrow> seed_buffer d labels 0 streams = Inr buf \<Longrightarrow>
     predict_sequence R predict_proba d labels 0 streams rng = ([], None)"
  by (simp add: predict_sequence_def)

text \<open>
  C1.  The claim is that in iteration \<open>i\<close> the network is queried on the buffer
  truncated to the time steps \<open>[0, i)\<close>.  For the seed \<open>[1]\<close>, two steps, one stream
  and two classes the buffer has two rows of three time steps.  In iteration 1 the
  query \<^verbatim>\<open>inputs[:1]\<close> is the first row alone with all three time steps: a network
  that answers that query only lets the first symbol through, and a network that
  answers only the buffer truncated to time step 0 (both rows) is never asked it.
\<close>

theorem predict_sequence_query_rows:
  "seed_buffer 2 [1] 2 1 = Inr [[[0, 1], [0, 0], [0, 0]], [[0, 1], [0, 0], [0, 0]]]
   \<and> query_arg 1 [[[0, 1], [0, 0], [0, 0]], [[0, 1], [0, 0], [0, 0]]] = [[[0, 1], [0, 0], [0, 0]]]
   \<and> predict_sequence toy_rng (answers_only [[[0, 1], [0, 0], [0, 0]]]) 2 [1] 2 1 (RngSeed 0)
       = ([Single 0], Some OtherError)
   \<and> predict_sequence toy_rng (answers_only [[[0, 1]], [[0, 1]]]) 2 [1] 2 1 (RngSeed 0)
       = ([], Some OtherError)"
  by code_simp

text \<open>
  C8.  The claim is that with \<open>streams = k > 1\<close> every yielded element is a list of
  \<open>k\<close> integers and that exactly \<open>steps\<close> elements are yielded.  For the seed \<open>[1]\<close>,
  two steps and three streams the first yielded element is a list of one integer, and
  the second iteration ends the generator with \<^verbatim>\<open>IndexError\<close>: two symbols cannot be
  written to three rows.
\<close>

theorem predict_sequence_streams_short:
  "predict_sequence toy_rng uniform2 2 [1] 2 3 (RngSeed 0) = ([Many [0]], Some IndexError)"
  by code_simp

section \<open>Properties of the batch generators\<close>

subsection \<open>Drawing offsets\<close>

lemma offsets_length [simp]: "length (offsets R n k r) = k"
  by (induction k arbitrary: r) (auto split: prod.splits)

lemma toy_rng_in_range: "randint_in_range toy_rng"
  by (simp add: randint_in_range_def toy_rng_def)

lemma py_randint_range:
  assumes "randint_in_range R" "py_randint R r n = (Inr k, r')"
  shows "int k < n"
proof -
  from assms(2) have n: "0 < n" and k: "k = fst (randint R r (nat n))"
    by (auto simp: py_randint_def split: if_splits prod.splits)
  from assms(1) n have "fst (randint R r (nat n)) < nat n"
    by (simp add: randint_in_range_def)
  with k n show ?thesis by linarith
qed

lemma draw_offset_bound:
  assumes "randint_in_range R" "draw_offset R t steps r = (Inr off, r')"
  shows "off + steps + 2 \<le> length (text_attr t)"
  using py_randint_range[OF assms(1) assms(2)[unfolded draw_offset_def]] by linarith

subsection \<open>\<^verbatim>\<open>Text.classifier_batches\<close>: the last character\<close>

lemma window_butlast:
  assumes "off + steps + 2 \<le> length xs"
  shows "take (steps + 1) (drop off (butlast xs @ [c])) = take (steps + 1) (drop off xs)"
proof -
  from assms obtain ys z where xs: "xs = ys @ [z]"
    by (cases xs rule: rev_cases) auto
  with assms have "off + steps + 1 \<le> length ys" by simp
  then show ?thesis by (simp add: xs)
qed

lemma batch_row_last_char:
  assumes "off + steps + 2 \<le> length (text_attr t)"
  shows "batch_row (t\<lparr>text_attr := butlast (text_attr t) @ [c]\<rparr>) steps b off io = batch_row t steps b off io"
proof -
  have w: "take (steps + 1) (drop off (text_attr (t\<lparr>text_attr := butlast (text_attr t) @ [c]\<rparr>)))
         = take (steps + 1) (drop off (text_attr t))"
  proof -
    have "text_attr (t\<lparr>text_attr := butlast (text_attr t) @ [c]\<rparr>) = butlast (text_attr t) @ [c]"
      by simp
    then show ?thesis
      using window_butlast[OF assms, of c] by (simp only:)
  qed
  have a: "alpha (t\<lparr>text_attr := butlast (text_attr t) @ [c]\<rparr>) = alpha t"
    and f: "fwd_index (t\<lparr>text_attr := butlast (text_attr t) @ [c]\<rparr>) = fwd_index t"
    by simp_all
  show ?thesis
    unfolding batch_row_def encode_def w a f by (rule refl)
qed

lemma batch_loop_last_char:
  assumes "randint_in_range R" "text_attr t \<noteq> []"
  shows "batch_loop R (t\<lparr>text_attr := butlast (text_attr t) @ [c]\<rparr>) steps bs io r = batch_loop R t steps bs io r"
proof (induction bs arbitrary: io r)
  case Nil
  then show ?case by simp
next
  case (Cons b bs)
  have d: "draw_offset R (t\<lparr>text_attr := butlast (text_attr t) @ [c]\<rparr>) steps r = draw_offset R t steps r"
    using assms(2) by (simp add: draw_offset_def)
  show ?case
  proof (cases "draw_offset R t steps r")
    case (Pair res r')
    show ?thesis
    proof (cases res)
      case (Inl e)
      then show ?thesis using Pair d by simp
    next
      case (Inr off)
      have "off + steps + 2 \<le> length (text_attr t)"
        using draw_offset_bound[OF assms(1)] Pair Inr by blast
      then show ?thesis
        using Pair Inr d Cons.IH by (simp add: batch_row_last_char split: sum.splits)
    qed
  qed
qed

text \<open>
  C9.  Every offset that the classifier batch generator draws satisfies
  \<open>offset \<le> len(text) - steps - 2\<close>, the window \<open>[offset, offset + steps]\<close> lies within
  the corpus without its last character, and replacing the last character of the
  corpus by any other changes no batch: it appears in no inputs and no targets.
\<close>

theorem classifier_batch_skips_last_char:
  assumes "randint_in_range R" and "text_attr t \<noteq> []"
  shows "(draw_offset R t steps r = (Inr off, r') \<longrightarrow>
            off + steps + 2 \<le> length (text_attr t)
          \<and> take (steps + 1) (drop off (text_attr t)) = take (steps + 1) (drop off (butlast (text_attr t))))
       \<and> batch R (t\<lparr>text_attr := butlast (text_attr t) @ [c]\<rparr>) st batch_size r1 =
           batch R t st batch_size r1"
proof -
  have "take (steps + 1) (drop off (text_attr t)) = take (steps + 1) (drop off (butlast (text_attr t)))"
    if "off + steps + 2 \<le> length (text_attr t)"
  proof -
    from that obtain ys z where xs: "text_attr t = ys @ [z]"
      by (cases "text_attr t" rule: rev_cases) auto
    with that have "off + steps + 1 \<le> length ys" by simp
    then show ?thesis by (simp add: xs)
  qed
  moreover have "batch R (t\<lparr>text_attr := butlast (text_attr t) @ [c]\<rparr>) st batch_size r1 =
           batch R t st batch_size r1"
    unfolding batch_def using batch_loop_last_char[OF assms] by simp
  ultimately show ?thesis
    using draw_offset_bound[OF assms(1)] by blast
qed

text \<open>The corpus \<open>a??a??\<close> with three steps: the offset 1 is drawn, and the batch of
  three rows is the same when the last character is \<open>a\<close>.\<close>

theorem classifier_batch_skips_last_char_witness:
  "randint_in_range toy_rng \<and> text_attr ab_text \<noteq> []
   \<and> draw_offset toy_rng ab_text 3 1 = (Inr 1, 2)
   \<and> 1 + 3 + 2 \<le> length (text_attr ab_text)
   \<and> take (3 + 1) (drop 1 (text_attr ab_text)) = take (3 + 1) (drop 1 (butlast (text_attr ab_text)))
   \<and> batch toy_rng (ab_text\<lparr>text_attr := butlast (text_attr ab_text) @ [CHR ''a'']\<rparr>) 3 3 1 =
       batch toy_rng ab_text 3 3 1"
proof -
  have h1: "randint_in_range toy_rng" by (rule toy_rng_in_range)
  have h2: "text_attr ab_text \<noteq> []" by (simp add: ab_text_def)
  have d: "draw_offset toy_rng ab_text 3 1 = (Inr 1, 2)" by code_simp
  show ?thesis
    using classifier_batch_skips_last_char[OF h1 h2, of 3 1 1 2 "CHR ''a''" 3 3 1] h1 h2 d
    by blast
qed

subsection \<open>\<^verbatim>\<open>Text.classifier_batches\<close>: inputs and targets\<close>

lemma write_ones_row:
  assumes "\<forall>(s, k) \<in> set ps. k < d" and "b < length x"
  shows "write_ones d x (map (\<lambda>(s, k). (b, s, k)) ps) =
           Inr (x[b := fold (\<lambda>(s, k) row. row[s := (row ! s)[k := 1]]) ps (x ! b)])"
  using assms
proof (induction ps arbitrary: x)
  case Nil
  then show ?case by simp
next
  case (Cons p ps)
  obtain s k where p: "p = (s, k)" by (cases p)
  have "k < d" using Cons.prems(1) p by simp
  moreover have "\<forall>(s, k) \<in> set ps. k < d" using Cons.prems(1) by simp
  ultimately show ?case
    using Cons.IH[of "x[b := (x ! b)[s := (x ! b ! s)[k := 1]]]"] Cons.prems(2)
    by (simp add: p)
qed

lemma fold_set_length:
  "length (fold (\<lambda>(s, k) row. row[s := (row ! s)[k := (1::real)]]) ps row) = length row"
  by (induction ps arbitrary: row) (auto split: prod.splits)

lemma fold_set_nth:
  assumes "s < length row" and "distinct (map fst ps)"
  shows "fold (\<lambda>(s, k) row. row[s := (row ! s)[k := (1::real)]]) ps row ! s =
           (case map_of ps s of None \<Rightarrow> row ! s | Some k \<Rightarrow> (row ! s)[k := 1])"
  using assms
proof (induction ps arbitrary: row)
  case Nil
  then show ?case by simp
next
  case (Cons p ps)
  obtain s0 k0 where p: "p = (s0, k0)" by (cases p)
  have d: "distinct (map fst ps)" and n: "s0 \<notin> fst ` set ps"
    using Cons.prems(2) p by auto
  have l: "s < length (row[s0 := (row ! s0)[k0 := 1]])" using Cons.prems(1) by simp
  show ?case
  proof (cases "s = s0")
    case True
    have "map_of ps s = None" using n True by (simp add: map_of_eq_None_iff)
    then show ?thesis
      using Cons.IH[OF l d] True Cons.prems(1) by (simp add: p)
  next
    case False
    then show ?thesis
      using Cons.IH[OF l d] by (simp add: p split: option.splits)
  qed
qed

lemma fold_set_one_hot:
  assumes "length ks = n"
  shows "fold (\<lambda>(s, k) row. row[s := (row ! s)[k := (1::real)]]) (zip [0 ..< n] ks)
           (replicate n (replicate d 0)) = map (one_hot d) ks"
proof (rule nth_equalityI)
  show "length (fold (\<lambda>(s, k) row. row[s := (row ! s)[k := (1::real)]]) (zip [0 ..< n] ks)
           (replicate n (replicate d 0))) = length (map (one_hot d) ks)"
    using assms by (simp add: fold_set_length)
next
  fix s
  assume "s < length (fold (\<lambda>(s, k) row. row[s := (row ! s)[k := (1::real)]]) (zip [0 ..< n] ks)
           (replicate n (replicate d 0)))"
  then have s: "s < n" by (simp add: fold_set_length)
  have m: "map_of (zip [0 ..< n] ks) s = Some (ks ! s)"
    using map_of_zip_nth[of "[0 ..< n]" ks s] assms s by simp
  have "distinct (map fst (zip [0 ..< n] ks))" using assms by simp
  then show "fold (\<lambda>(s, k) row. row[s := (row ! s)[k := (1::real)]]) (zip [0 ..< n] ks)
           (replicate n (replicate d 0)) ! s = map (one_hot d) ks ! s"
    using s assms by (subst fold_set_nth) (simp_all add: m one_hot_def)
qed

lemma encode_range:
  assumes "Text_init tmpl txt a mc u = Inr t"
  shows "\<forall>k \<in> set (encode t s). k < 1 + length (alpha t)"
proof -
  have f: "fwd_index t = py_dict (zip (u @ alpha t) [0 ..< 1 + length (alpha t)])"
    using assms by (auto simp: Text_init_def Let_def split: sum.splits if_splits)
  have "fwd_index t c = Some k \<Longrightarrow> k < 1 + length (alpha t)" for c k
    unfolding f by (rule py_dict_range)
  then show ?thesis
    by (auto simp: encode_def split: option.splits)
qed

lemma batch_row_window:
  assumes "\<forall>k \<in> set (encode t (take (steps + 1) (drop off (text_attr t)))). k < 1 + length (alpha t)"
    and "off + steps + 1 \<le> length (text_attr t)"
    and "b < length inputs"
    and "inputs ! b = replicate steps (replicate (1 + length (alpha t)) 0)"
  shows "batch_row t steps b off (inputs, outputs) =
           Inr (inputs[b := map (one_hot (1 + length (alpha t)))
                              (butlast (encode t (take (steps + 1) (drop off (text_attr t)))))],
                outputs[b := map int (tl (encode t (take (steps + 1) (drop off (text_attr t)))))])"
proof -
  define enc where "enc = encode t (take (steps + 1) (drop off (text_attr t)))"
  have le: "length enc = steps + 1"
    using assms(2) by (simp add: enc_def encode_def)
  have lb: "length (butlast enc) = steps" and lt: "length (map int (tl enc)) = steps"
    using le by simp_all
  have bp: "broadcast_pairs [0 ..< steps] (butlast enc) = Inr (zip [0 ..< steps] (butlast enc))"
    using lb by (simp add: broadcast_pairs_def)
  have a1: "\<forall>k \<in> set enc. k < 1 + length (alpha t)"
    using assms(1) unfolding enc_def .
  have r: "\<forall>(s, k) \<in> set (zip [0 ..< steps] (butlast enc)). k < 1 + length (alpha t)"
    using a1 by (auto dest!: set_zip_rightD in_set_butlastD)
  have w: "write_ones (1 + length (alpha t)) inputs
             (map (\<lambda>(s, k). (b, s, k)) (zip [0 ..< steps] (butlast enc))) =
           Inr (inputs[b := map (one_hot (1 + length (alpha t))) (butlast enc)])"
    by (simp only: write_ones_row[OF r assms(3)] assms(4) fold_set_one_hot[OF lb])
  have st: "set_targets steps b outputs (map int (tl enc)) = Inr (outputs[b := map int (tl enc)])"
    using lt by (simp add: set_targets_def)
  show ?thesis
    unfolding batch_row_def enc_def[symmetric] Let_def fst_conv snd_conv
    by (simp only: bp w st sum.case)
qed

lemma batch_loop_spec:
  assumes R: "randint_in_range R"
    and codes: "\<forall>s. \<forall>k \<in> set (encode t s). k < 1 + length (alpha t)"
    and n: "steps + 1 < length (text_attr t)"
    and m: "m \<le> B" and li: "length inputs = B" and lo: "length outputs = B"
    and z: "\<forall>i. m \<le> i \<and> i < B \<longrightarrow> inputs ! i = replicate steps (replicate (1 + length (alpha t)) 0)"
  shows "\<exists>inputs' outputs' r'.
           batch_loop R t steps [m ..< B] (inputs, outputs) r = (Inr (inputs', outputs'), r')
         \<and> length inputs' = B \<and> length outputs' = B
         \<and> (\<forall>i<B. (i < m \<longrightarrow> inputs' ! i = inputs ! i \<and> outputs' ! i = outputs ! i)
              \<and> (m \<le> i \<longrightarrow>
                   offsets R (length (text_attr t) - steps - 1) (B - m) r ! (i - m) + steps + 2
                     \<le> length (text_attr t)
                 \<and> inputs' ! i = map (one_hot (1 + length (alpha t)))
                     (butlast (encode t (take (steps + 1)
                        (drop (offsets R (length (text_attr t) - steps - 1) (B - m) r ! (i - m))
                           (text_attr t)))))
                 \<and> outputs' ! i = map int
                     (tl (encode t (take (steps + 1)
                        (drop (offsets R (length (text_attr t) - steps - 1) (B - m) r ! (i - m))
                           (text_attr t)))))))"
  using m li lo z
proof (induction "B - m" arbitrary: m inputs outputs r)
  case 0
  then show ?case by simp
next
  case (Suc d)
  define N where "N = length (text_attr t) - steps - 1"
  have Npos: "0 < N" using n by (simp add: N_def)
  have mB: "m < B" using Suc.hyps(2) by simp
  obtain off r1 where rd: "randint R r N = (off, r1)" by (cases "randint R r N")
  have offN: "off < N"
    using R Npos rd unfolding randint_in_range_def by (metis fst_conv)
  have ob: "off + steps + 2 \<le> length (text_attr t)" using offN by (simp add: N_def)
  have dr: "draw_offset R t steps r = (Inr off, r1)"
    using Npos rd n by (simp add: draw_offset_def py_randint_def N_def nat_diff_distrib' of_nat_diff)
  define enc where "enc = encode t (take (steps + 1) (drop off (text_attr t)))"
  have br: "batch_row t steps m off (inputs, outputs) =
              Inr (inputs[m := map (one_hot (1 + length (alpha t))) (butlast enc)],
                   outputs[m := map int (tl enc)])"
    unfolding enc_def
    using codes ob mB Suc.prems by (intro batch_row_window) auto
  define inputs1 where "inputs1 = inputs[m := map (one_hot (1 + length (alpha t))) (butlast enc)]"
  define outputs1 where "outputs1 = outputs[m := map int (tl enc)]"
  have step: "batch_loop R t steps [m ..< B] (inputs, outputs) r =
                batch_loop R t steps [Suc m ..< B] (inputs1, outputs1) r1"
    using mB by (simp add: upt_conv_Cons dr br inputs1_def outputs1_def)
  have d: "d = B - Suc m" using Suc.hyps(2) by simp
  have z1: "\<forall>i. Suc m \<le> i \<and> i < B \<longrightarrow>
              inputs1 ! i = replicate steps (replicate (1 + length (alpha t)) 0)"
    using Suc.prems(4) by (simp add: inputs1_def)
  from Suc.hyps(1)[OF d, of inputs1 outputs1 r1] mB Suc.prems z1
  obtain inputs' outputs' r' where
    res: "batch_loop R t steps [Suc m ..< B] (inputs1, outputs1) r1 = (Inr (inputs', outputs'), r')"
      and len: "length inputs' = B" "length outputs' = B"
      and rows: "\<forall>i<B. (i < Suc m \<longrightarrow> inputs' ! i = inputs1 ! i \<and> outputs' ! i = outputs1 ! i)
              \<and> (Suc m \<le> i \<longrightarrow>
                   offsets R N (B - Suc m) r1 ! (i - Suc m) + steps + 2 \<le> length (text_attr t)
                 \<and> inputs' ! i = map (one_hot (1 + length (alpha t)))
                     (butlast (encode t (take (steps + 1)
                        (drop (offsets R N (B - Suc m) r1 ! (i - Suc m)) (text_attr t)))))
                 \<and> outputs' ! i = map int
                     (tl (encode t (take (steps + 1)
                        (drop (offsets R N (B - Suc m) r1 ! (i - Suc m)) (text_attr t))))))"
    unfolding N_def by (auto simp: inputs1_def outputs1_def)
  have e: "B - m = Suc (B - Suc m)" using mB by simp
  have offs: "offsets R N (B - m) r = off # offsets R N (B - Suc m) r1"
    by (subst e) (simp add: rd)
  have "\<forall>i<B. (i < m \<longrightarrow> inputs' ! i = inputs ! i \<and> outputs' ! i = outputs ! i)
              \<and> (m \<le> i \<longrightarrow>
                   offsets R N (B - m) r ! (i - m) + steps + 2 \<le> length (text_attr t)
                 \<and> inputs' ! i = map (one_hot (1 + length (alpha t)))
                     (butlast (encode t (take (steps + 1)
                        (drop (offsets R N (B - m) r ! (i - m)) (text_attr t)))))
                 \<and> outputs' ! i = map int
                     (tl (encode t (take (steps + 1)
                        (drop (offsets R N (B - m) r ! (i - m)) (text_attr t))))))"
  proof (intro allI impI)
    fix i assume i: "i < B"
    consider "i < m" | "i = m" | "m < i" by linarith
    then show "(i < m \<longrightarrow> inputs' ! i = inputs ! i \<and> outputs' ! i = outputs ! i)
              \<and> (m \<le> i \<longrightarrow>
                   offsets R N (B - m) r ! (i - m) + steps + 2 \<le> length (text_attr t)
                 \<and> inputs' ! i = map (one_hot (1 + length (alpha t)))
                     (butlast (encode t (take (steps + 1)
                        (drop (offsets R N (B - m) r ! (i - m)) (text_attr t)))))
                 \<and> outputs' ! i = map int
                     (tl (encode t (take (steps + 1)
                        (drop (offsets R N (B - m) r ! (i - m)) (text_attr t))))))"
    proof cases
      case 1
      then show ?thesis
        using rows i by (simp add: inputs1_def outputs1_def)
    next
      case 2
      have "inputs' ! m = inputs1 ! m" "outputs' ! m = outputs1 ! m"
        using rows i 2 by simp_all
      then show ?thesis
        using 2 ob mB Suc.prems(2,3) by (simp add: offs inputs1_def outputs1_def enc_def)
    next
      case 3
      then have "offsets R N (B - m) r ! (i - m) = offsets R N (B - Suc m) r1 ! (i - Suc m)"
        by (simp add: offs nth_Cons')
      then show ?thesis
        using 3 rows i by simp
    qed
  qed
  then show ?case
    unfolding step res N_def using len by blast
qed

lemma one_hot_inj:
  assumes "k < d" "one_hot d k = one_hot d k'"
  shows "k = k'"
proof (rule ccontr)
  assume "k \<noteq> k'"
  then have "one_hot d k' ! k = 0" using assms(1) by (simp add: one_hot_def)
  moreover have "one_hot d k ! k = 1" using assms(1) by (simp add: one_hot_def)
  ultimately show False using assms(2) by simp
qed

text \<open>
  C3.  Every call of the closure returned by \<^verbatim>\<open>classifier_batches\<close> returns a batch
  in which each row \<open>b\<close> comes from one window of \<open>steps + 1\<close> consecutive characters
  of the corpus, with codes \<open>enc\<close>: the input at time step \<open>s\<close> is the one-hot vector
  of \<open>enc[s]\<close>, the target at \<open>s\<close> is \<open>enc[s + 1]\<close>, and so the target at \<open>s\<close> is the
  code that the input at \<open>s + 1\<close> encodes, whenever \<open>s + 1 < steps\<close>.
\<close>

theorem classifier_batch_shift:
  assumes "Text_init tmpl txt a mc u = Inr t"
    and "randint_in_range R"
    and "classifier_batches R t steps batch_size rng = Inr (r0, f)"
    and "0 \<le> steps" and "steps + 1 < int (length (text_attr t))"
  shows "\<exists>inputs outputs r'. f r = (Inr (inputs, outputs), r')
      \<and> length inputs = nat batch_size \<and> length outputs = nat batch_size
      \<and> (\<forall>b < nat batch_size. \<exists>off enc.
            off = offsets R (length (text_attr t) - nat steps - 1) (nat batch_size) r ! b
          \<and> off + nat steps + 1 \<le> length (text_attr t)
          \<and> enc = encode t (take (nat steps + 1) (drop off (text_attr t)))
          \<and> length enc = nat steps + 1
          \<and> inputs ! b = map (one_hot (1 + length (alpha t))) (butlast enc)
          \<and> outputs ! b = map int (tl enc)
          \<and> (\<forall>s < nat steps. inputs ! b ! s = one_hot (1 + length (alpha t)) (enc ! s)
                 \<and> outputs ! b ! s = int (enc ! (s + 1))
                 \<and> enc ! (s + 1) \<le> length (alpha t))
          \<and> (\<forall>s. s + 1 < nat steps \<longrightarrow>
                 inputs ! b ! (s + 1) = one_hot (1 + length (alpha t)) (nat (outputs ! b ! s))))"
proof -
  define B where "B = nat batch_size"
  define S where "S = nat steps"
  define d where "d = 1 + length (alpha t)"
  define N where "N = length (text_attr t) - S - 1"
  have f: "f = batch R t steps batch_size"
    using assms(3)
    by (auto simp: classifier_batches_def split: if_splits sum.splits option.splits)
  have codes: "\<forall>s. \<forall>k \<in> set (encode t s). k < 1 + length (alpha t)"
    using encode_range[OF assms(1)] by blast
  have n: "S + 1 < length (text_attr t)" using assms(4,5) by (simp add: S_def)
  have z: "\<forall>i. 0 \<le> i \<and> i < B \<longrightarrow>
      zeros3 B S (1 + length (alpha t)) ! i = replicate S (replicate (1 + length (alpha t)) 0)"
    by (simp add: zeros3_def)
  from batch_loop_spec[OF assms(2) codes n _ _ _ z, of "replicate B (replicate S 0)" r]
  obtain inputs outputs r' where
    res: "batch_loop R t S [0 ..< B] (zeros3 B S (1 + length (alpha t)), replicate B (replicate S 0)) r
            = (Inr (inputs, outputs), r')"
    and len: "length inputs = B" "length outputs = B"
    and rows: "\<forall>i<B. offsets R N B r ! i + S + 2 \<le> length (text_attr t)
         \<and> inputs ! i = map (one_hot d)
             (butlast (encode t (take (S + 1) (drop (offsets R N B r ! i) (text_attr t)))))
         \<and> outputs ! i = map int
             (tl (encode t (take (S + 1) (drop (offsets R N B r ! i) (text_attr t)))))"
    unfolding N_def d_def by (auto simp: zeros3_def)
  have fr: "f r = (Inr (inputs, outputs), r')"
    using assms(4) res by (simp add: f batch_def B_def S_def)
  have "\<exists>off enc.
            off = offsets R N B r ! b
          \<and> off + S + 1 \<le> length (text_attr t)
          \<and> enc = encode t (take (S + 1) (drop off (text_attr t)))
          \<and> length enc = S + 1
          \<and> inputs ! b = map (one_hot d) (butlast enc)
          \<and> outputs ! b = map int (tl enc)
          \<and> (\<forall>s < S. inputs ! b ! s = one_hot d (enc ! s)
                 \<and> outputs ! b ! s = int (enc ! (s + 1))
                 \<and> enc ! (s + 1) \<le> length (alpha t))
          \<and> (\<forall>s. s + 1 < S \<longrightarrow> inputs ! b ! (s + 1) = one_hot d (nat (outputs ! b ! s)))"
    if b: "b < B" for b
  proof -
    define off where "off = offsets R N B r ! b"
    define enc where "enc = encode t (take (S + 1) (drop off (text_attr t)))"
    have ob: "off + S + 2 \<le> length (text_attr t)"
      and ib: "inputs ! b = map (one_hot d) (butlast enc)"
      and tb: "outputs ! b = map int (tl enc)"
      using rows b by (simp_all add: off_def enc_def)
    have le: "length enc = S + 1" using ob by (simp add: enc_def encode_def)
    have cr: "\<forall>k \<in> set enc. k < 1 + length (alpha t)" using codes by (simp add: enc_def)
    have i1: "inputs ! b ! s = one_hot d (enc ! s)" if "s < S" for s
      using that le by (simp add: ib nth_butlast)
    have t1: "outputs ! b ! s = int (enc ! (s + 1))" if "s < S" for s
      using that le by (simp add: tb nth_tl)
    have c1: "enc ! (s + 1) \<le> length (alpha t)" if "s < S" for s
    proof -
      have "enc ! (s + 1) \<in> set enc" using that le by (intro nth_mem) simp
      then show ?thesis using cr by fastforce
    qed
    have sh: "inputs ! b ! (s + 1) = one_hot d (nat (outputs ! b ! s))" if "s + 1 < S" for s
      using that i1[of "s + 1"] t1[of s] by simp
    show ?thesis
      using ob le ib tb i1 t1 c1 sh unfolding off_def[symmetric] enc_def[symmetric]
      by (intro exI[of _ off] exI[of _ enc]) (simp add: off_def enc_def)
  qed
  then show ?thesis
    using fr len unfolding B_def S_def d_def N_def by blast
qed

text \<open>The corpus \<open>a??a??\<close>, three steps, three rows.\<close>

theorem classifier_batch_shift_witness:
  "Text_init no_template ''a??a??'' None 2 ''?'' = Inr ab_text
   \<and> randint_in_range toy_rng
   \<and> classifier_batches toy_rng ab_text 3 3 (RngState 1) = Inr (1, batch toy_rng ab_text 3 3)
   \<and> (0::int) \<le> 3 \<and> 3 + 1 < int (length (text_attr ab_text))
   \<and> (\<exists>inputs outputs r'. batch toy_rng ab_text 3 3 1 = (Inr (inputs, outputs), r')
        \<and> length inputs = 3 \<and> length outputs = 3
        \<and> (\<forall>b<3. \<forall>s. s + 1 < 3 \<longrightarrow> inputs ! b ! (s + 1) = one_hot 2 (nat (outputs ! b ! s))))
   \<and> batch toy_rng ab_text 3 3 1 =
       (Inr ([[[1, 0], [1, 0], [0, 1]], [[0, 1], [1, 0], [1, 0]], [[1, 0], [1, 0], [0, 1]]],
             [[0, 1, 0], [0, 0, 1], [0, 1, 0]]), 4)"
proof -
  have h1: "Text_init no_template ''a??a??'' None 2 ''?'' = Inr ab_text" by (rule ab_text_init)
  have h2: "randint_in_range toy_rng" by (rule toy_rng_in_range)
  have h3: "classifier_batches toy_rng ab_text 3 3 (RngState 1) = Inr (1, batch toy_rng ab_text 3 3)"
    by (simp add: classifier_batches_def make_rng_def toy_rng_def)
  have h4: "(0::int) \<le> 3" by simp
  have h5: "3 + 1 < int (length (text_attr ab_text))" by (simp add: ab_text_def)
  have a: "1 + length (alpha ab_text) = 2" by (simp add: ab_text_def)
  have c: "\<exists>inputs outputs r'. batch toy_rng ab_text 3 3 1 = (Inr (inputs, outputs), r')
        \<and> length inputs = 3 \<and> length outputs = 3
        \<and> (\<forall>b<3. \<forall>s. s + 1 < 3 \<longrightarrow> inputs ! b ! (s + 1) = one_hot 2 (nat (outputs ! b ! s)))"
    using classifier_batch_shift[OF h1 h2 h3 h4 h5, of 1] unfolding a by fastforce
  have e: "batch toy_rng ab_text 3 3 1 =
       (Inr ([[[1, 0], [1, 0], [0, 1]], [[0, 1], [1, 0], [1, 0]], [[1, 0], [1, 0], [0, 1]]],
             [[0, 1, 0], [0, 0, 1], [0, 1, 0]]), 4)"
    by code_simp
  show ?thesis by (intro conjI h1 h2 h3 h4 h5 c e)
qed

subsection \<open>\<^verbatim>\<open>batches\<close>\<close>

lemma set_windows_full:
  assumes "length xs = length arrays" and "\<forall>a \<in> set arrays. j + steps \<le> length (rows a)"
  shows "set_windows i j steps xs arrays =
           Inr (map (\<lambda>(x, a). x[i := take steps (drop j (rows a))]) (zip xs arrays))"
  using assms
  by (induction xs arrays rule: list_induct2) (auto simp: set_window_def Let_def)

lemma sample_loop_spec:
  assumes R: "randint_in_range R"
    and ne: "arrays \<noteq> []"
    and n: "steps < length (rows (arrays ! 0))"
    and al: "\<forall>a \<in> set arrays. length (rows (arrays ! 0)) \<le> length (rows a)"
    and m: "m \<le> B" and lx: "length xs = length arrays"
    and lr: "\<forall>k<length arrays. length (xs ! k) = B"
  shows "\<exists>xs' r'. sample_loop R arrays steps [m ..< B] xs r = (Inr xs', r')
         \<and> length xs' = length arrays
         \<and> (\<forall>k<length arrays. length (xs' ! k) = B
              \<and> (\<forall>i<B. (i < m \<longrightarrow> xs' ! k ! i = xs ! k ! i)
                   \<and> (m \<le> i \<longrightarrow>
                        offsets R (length (rows (arrays ! 0)) - steps) (B - m) r ! (i - m)
                          < length (rows (arrays ! 0)) - steps
                      \<and> xs' ! k ! i = take steps
                          (drop (offsets R (length (rows (arrays ! 0)) - steps) (B - m) r ! (i - m))
                             (rows (arrays ! k))))))"
  using m lx lr
proof (induction "B - m" arbitrary: m xs r)
  case 0
  then show ?case by simp
next
  case (Suc d)
  define N where "N = length (rows (arrays ! 0)) - steps"
  have Npos: "0 < N" using n by (simp add: N_def)
  have mB: "m < B" using Suc.hyps(2) by simp
  obtain a0 rest where arr: "arrays = a0 # rest" using ne by (cases arrays) auto
  obtain j r1 where rd: "randint R r N = (j, r1)" by (cases "randint R r N")
  have jN: "j < N"
    using R Npos rd unfolding randint_in_range_def by (metis fst_conv)
  have pr: "py_randint R r (int (length (rows a0)) - int steps) = (Inr j, r1)"
    using Npos rd n by (simp add: py_randint_def N_def arr nat_diff_distrib' of_nat_diff)
  have full: "\<forall>a \<in> set arrays. j + steps \<le> length (rows a)"
    using al jN by (fastforce simp: N_def)
  define xs1 where "xs1 = map (\<lambda>(x, a). x[m := take steps (drop j (rows a))]) (zip xs arrays)"
  have sw: "set_windows m j steps xs arrays = Inr xs1"
    unfolding xs1_def by (rule set_windows_full[OF Suc.prems(2) full])
  have step: "sample_loop R arrays steps [m ..< B] xs r = sample_loop R arrays steps [Suc m ..< B] xs1 r1"
    using mB pr sw by (simp add: upt_conv_Cons arr)
  have d: "d = B - Suc m" using Suc.hyps(2) by simp
  have l1: "length xs1 = length arrays" using Suc.prems(2) by (simp add: xs1_def)
  have x1: "xs1 ! k = (xs ! k)[m := take steps (drop j (rows (arrays ! k)))]" if "k < length arrays" for k
    using that Suc.prems(2) by (simp add: xs1_def)
  have lr1: "\<forall>k<length arrays. length (xs1 ! k) = B"
    using Suc.prems(3) by (simp add: x1)
  from Suc.hyps(1)[OF d _ l1 lr1, of r1] mB
  obtain xs' r' where
    res: "sample_loop R arrays steps [Suc m ..< B] xs1 r1 = (Inr xs', r')"
      and len: "length xs' = length arrays"
      and rows: "\<forall>k<length arrays. length (xs' ! k) = B
              \<and> (\<forall>i<B. (i < Suc m \<longrightarrow> xs' ! k ! i = xs1 ! k ! i)
                   \<and> (Suc m \<le> i \<longrightarrow>
                        offsets R N (B - Suc m) r1 ! (i - Suc m) < N
                      \<and> xs' ! k ! i = take steps
                          (drop (offsets R N (B - Suc m) r1 ! (i - Suc m)) (rows (arrays ! k)))))"
    unfolding N_def by auto
  have e: "B - m = Suc (B - Suc m)" using mB by simp
  have offs: "offsets R N (B - m) r = j # offsets R N (B - Suc m) r1"
    by (subst e) (simp add: rd)
  have "\<forall>k<length arrays. length (xs' ! k) = B
              \<and> (\<forall>i<B. (i < m \<longrightarrow> xs' ! k ! i = xs ! k ! i)
                   \<and> (m \<le> i \<longrightarrow>
                        offsets R N (B - m) r ! (i - m) < N
                      \<and> xs' ! k ! i = take steps
                          (drop (offsets R N (B - m) r ! (i - m)) (rows (arrays ! k)))))"
  proof (intro allI impI conjI)
    fix k assume k: "k < length arrays"
    show "length (xs' ! k) = B" using rows k by simp
  next
    fix k i assume k: "k < length arrays" and i: "i < B" and "i < m"
    then show "xs' ! k ! i = xs ! k ! i"
      using rows by (simp add: x1)
  next
    fix k i assume k: "k < length arrays" and i: "i < B" and mi: "m \<le> i"
    show "offsets R N (B - m) r ! (i - m) < N"
    proof (cases "i = m")
      case True
      then show ?thesis using jN by (simp add: offs)
    next
      case False
      then have "offsets R N (B - m) r ! (i - m) = offsets R N (B - Suc m) r1 ! (i - Suc m)"
        using mi by (simp add: offs nth_Cons')
      then show ?thesis using rows k i mi False by simp
    qed
  next
    fix k i assume k: "k < length arrays" and i: "i < B" and mi: "m \<le> i"
    show "xs' ! k ! i = take steps (drop (offsets R N (B - m) r ! (i - m)) (rows (arrays ! k)))"
    proof (cases "i = m")
      case True
      have "xs' ! k ! m = xs1 ! k ! m" using rows k i True by simp
      also have "\<dots> = take steps (drop j (rows (arrays ! k)))"
        using k mB Suc.prems(3) by (simp add: x1)
      finally show ?thesis using True by (simp add: offs)
    next
      case False
      then have "offsets R N (B - m) r ! (i - m) = offsets R N (B - Suc m) r1 ! (i - Suc m)"
        using mi by (simp add: offs nth_Cons')
      then show ?thesis using rows k i mi False by simp
    qed
  qed
  then show ?case
    unfolding step res N_def using len by blast
qed

text \<open>
  C4.  Let the arrays be non-empty in number, \<open>0 \<le> steps < total_time\<close>, where
  \<open>total_time\<close> is the number of time steps of the first array, and let every array
  have at least \<open>total_time\<close> time steps (as when all share it).  Every call of the
  closure returned by \<^verbatim>\<open>batches\<close> draws one offset per row by
  \<^verbatim>\<open>randint(total_time - steps)\<close>, each in \<open>[0, total_time - steps)\<close>, and returns one
  new array per source array, of \<open>batch_size\<close> rows, whose row \<open>i\<close> is the slice
  \<open>[offset_i, offset_i + steps)\<close> of that source array: \<open>steps\<close> time steps of the
  source's feature dimension, at the same offset for every source array.
\<close>

theorem batches_sample_windows:
  assumes "randint_in_range R"
    and "batches R arrays steps batch_size rng = Inr (r0, f)"
    and "arrays \<noteq> []" and "0 \<le> steps" and "steps < int (length (rows (arrays ! 0)))"
    and "\<forall>a \<in> set arrays. length (rows (arrays ! 0)) \<le> length (rows a)"
  shows "\<exists>xs r'. f r = (Inr xs, r') \<and> length xs = length arrays
     \<and> (\<forall>k<length arrays. length (xs ! k) = nat batch_size
          \<and> (\<forall>i<nat batch_size. \<exists>j.
                 j = offsets R (length (rows (arrays ! 0)) - nat steps) (nat batch_size) r ! i
               \<and> j < length (rows (arrays ! 0)) - nat steps
               \<and> xs ! k ! i = take (nat steps) (drop j (rows (arrays ! k)))
               \<and> length (xs ! k ! i) = nat steps
               \<and> ((\<forall>row \<in> set (rows (arrays ! k)). length row = ncols (arrays ! k)) \<longrightarrow>
                    (\<forall>row \<in> set (xs ! k ! i). length row = ncols (arrays ! k)))))"
proof -
  define B where "B = nat batch_size"
  define S where "S = nat steps"
  define N where "N = length (rows (arrays ! 0)) - S"
  have f: "f = sample R arrays steps batch_size"
    using assms(2) by (auto simp: batches_def split: if_splits sum.splits)
  have n: "S < length (rows (arrays ! 0))" using assms(4,5) by (simp add: S_def)
  define xs0 where "xs0 = map (\<lambda>a. zeros3 B S (ncols a) :: 'b list list list) arrays"
  have l0: "length xs0 = length arrays" by (simp add: xs0_def)
  have lr0: "\<forall>k<length arrays. length (xs0 ! k) = B" by (simp add: xs0_def zeros3_def)
  from sample_loop_spec[OF assms(1,3) n assms(6) _ l0 lr0, of 0 r]
  obtain xs r' where
    res: "sample_loop R arrays S [0 ..< B] xs0 r = (Inr xs, r')"
    and len: "length xs = length arrays"
    and rws: "\<forall>k<length arrays. length (xs ! k) = B
              \<and> (\<forall>i<B. offsets R N B r ! i < N
                      \<and> xs ! k ! i = take S (drop (offsets R N B r ! i) (rows (arrays ! k))))"
    unfolding N_def by auto
  have fr: "f r = (Inr xs, r')"
    using assms(4) res by (simp add: f sample_def B_def S_def xs0_def)
  have "length (xs ! k) = B
          \<and> (\<forall>i<B. \<exists>j. j = offsets R N B r ! i \<and> j < N
               \<and> xs ! k ! i = take S (drop j (rows (arrays ! k)))
               \<and> length (xs ! k ! i) = S
               \<and> ((\<forall>row \<in> set (rows (arrays ! k)). length row = ncols (arrays ! k)) \<longrightarrow>
                    (\<forall>row \<in> set (xs ! k ! i). length row = ncols (arrays ! k))))"
    if k: "k < length arrays" for k
  proof (intro conjI allI impI)
    show "length (xs ! k) = B" using rws k by simp
  next
    fix i assume i: "i < B"
    define j where "j = offsets R N B r ! i"
    have jN: "j < N" and w: "xs ! k ! i = take S (drop j (rows (arrays ! k)))"
      using rws k i by (simp_all add: j_def)
    have "length (rows (arrays ! 0)) \<le> length (rows (arrays ! k))"
      using assms(6) k by simp
    then have ls: "length (xs ! k ! i) = S"
      using jN by (simp add: w N_def)
    have "set (xs ! k ! i) \<subseteq> set (rows (arrays ! k))"
      unfolding w by (meson set_take_subset set_drop_subset subset_trans)
    then have "(\<forall>row \<in> set (rows (arrays ! k)). length row = ncols (arrays ! k)) \<longrightarrow>
                    (\<forall>row \<in> set (xs ! k ! i). length row = ncols (arrays ! k))"
      by blast
    with jN w ls show "\<exists>j. j = offsets R N B r ! i \<and> j < N
               \<and> xs ! k ! i = take S (drop j (rows (arrays ! k)))
               \<and> length (xs ! k ! i) = S
               \<and> ((\<forall>row \<in> set (rows (arrays ! k)). length row = ncols (arrays ! k)) \<longrightarrow>
                    (\<forall>row \<in> set (xs ! k ! i). length row = ncols (arrays ! k)))"
      unfolding j_def by blast
  qed
  then show ?thesis
    using fr len unfolding B_def S_def N_def by blast
qed

text \<open>Two arrays of five time steps, two steps, two rows: the offsets 1 and 2.\<close>

theorem batches_sample_windows_witness:
  "randint_in_range toy_rng
   \<and> batches toy_rng [arr_a, arr_b] 2 2 (RngState 1) = Inr (1, sample toy_rng [arr_a, arr_b] 2 2)
   \<and> [arr_a, arr_b] \<noteq> [] \<and> (0::int) \<le> 2 \<and> 2 < int (length (rows ([arr_a, arr_b] ! 0)))
   \<and> length (rows arr_a) = 5 \<and> length (rows arr_b) = 5
   \<and> (\<exists>xs r'. sample toy_rng [arr_a, arr_b] 2 2 1 = (Inr xs, r') \<and> length xs = 2
        \<and> (\<forall>k<2. length (xs ! k) = 2
             \<and> (\<forall>i<2. xs ! k ! i =
                   take 2 (drop (offsets toy_rng 3 2 1 ! i) (rows ([arr_a, arr_b] ! k))))))
   \<and> offsets toy_rng 3 2 1 = [1, 2]
   \<and> sample toy_rng [arr_a, arr_b] 2 2 1 =
       (Inr [[[[1], [2]], [[2], [3]]], [[[10, 11], [20, 22]], [[20, 22], [30, 33]]]], 3)"
proof -
  have h1: "randint_in_range toy_rng" by (rule toy_rng_in_range)
  have h2: "batches toy_rng [arr_a, arr_b] 2 2 (RngState 1)
              = Inr (1, sample toy_rng [arr_a, arr_b] 2 2)"
    by (simp add: batches_def make_rng_def)
  have h3: "[arr_a, arr_b] \<noteq> []" by simp
  have h4: "(0::int) \<le> 2" by simp
  have h5: "2 < int (length (rows ([arr_a, arr_b] ! 0)))" by (simp add: arr_a_def)
  have h6: "\<forall>a \<in> set [arr_a, arr_b]. length (rows ([arr_a, arr_b] ! 0)) \<le> length (rows a)"
    by (simp add: arr_a_def arr_b_def)
  have n: "length (rows ([arr_a, arr_b] ! 0)) - nat 2 = 3" by (simp add: arr_a_def)
  have c: "\<exists>xs r'. sample toy_rng [arr_a, arr_b] 2 2 1 = (Inr xs, r') \<and> length xs = 2
        \<and> (\<forall>k<2. length (xs ! k) = 2
             \<and> (\<forall>i<2. xs ! k ! i =
                   take 2 (drop (offsets toy_rng 3 2 1 ! i) (rows ([arr_a, arr_b] ! k)))))"
    using batches_sample_windows[OF h1 h2 h3 h4 h5 h6, of 1] unfolding n by fastforce
  have o: "offsets toy_rng 3 2 1 = [1, 2]" by code_simp
  have e: "sample toy_rng [arr_a, arr_b] 2 2 1 =
       (Inr [[[[1], [2]], [[2], [3]]], [[[10, 11], [20, 22]], [[20, 22], [30, 33]]]], 3)"
    by code_simp
  have la: "length (rows arr_a) = 5" by (simp add: arr_a_def)
  have lb: "length (rows arr_b) = 5" by (simp add: arr_b_def)
  show ?thesis by (intro conjI h1 h2 h3 h4 h5 la lb c o e)
qed

end
